theory Spec2Isabelle
  imports Main
begin

section \<open>Resource naming: \<open>BasePathClass\<close> (Teleport.ts, lines 112-327)\<close>

subsection \<open>String helpers of the JavaScript runtime\<close>

text \<open>\<open>Array.prototype.join\<close> on an array of strings.\<close>

fun join :: "string \<Rightarrow> string list \<Rightarrow> string" where
  "join sep [] = []"
| "join sep [x] = x"
| "join sep (x # y # ys) = x @ sep @ join sep (y # ys)"

text \<open>\<open>String.prototype.split\<close> with a one-character separator: the empty string
  splits into one empty piece, and two adjacent separators enclose an empty piece.\<close>

fun split :: "char \<Rightarrow> string \<Rightarrow> string list" where
  "split c [] = [[]]"
| "split c (x # xs) =
     (if x = c then [] # split c xs
      else (case split c xs of
              [] \<Rightarrow> [[x]]
            | w # ws \<Rightarrow> (x # w) # ws))"

text \<open>\<open>String.prototype.includes\<close>: the argument occurs as a contiguous substring.\<close>

fun str_includes :: "string \<Rightarrow> string \<Rightarrow> bool" where
  "str_includes [] sub = (sub = [])"
| "str_includes (x # xs) sub = (take (length sub) (x # xs) = sub \<or> str_includes xs sub)"

subsection \<open>Types\<close>

text \<open>The part of the datapack that \<open>getName\<close> uses: \<open>getResourcePath\<close> and, of its
  result, the fields \<open>namespace\<close> and \<open>fullPath\<close>. The datapack class is not among the
  sources, so it is a parameter of the model.\<close>

record ResourcePath =
  namespace :: string
  fullPath :: "string list"

record Datapack =
  getResourcePath :: "string \<Rightarrow> ResourcePath"

text \<open>\<open>BasePathOptions\<close> (lines 123-129): both fields are optional. \<open>BasePathClass\<close>
  (lines 142-155) has the same two fields and the datapack.\<close>

record BasePathOptions =
  namespace :: "string option"
  directory :: "string option"

record BasePathClass = BasePathOptions +
  datapack :: Datapack

text \<open>The five \<open>throw new Error(...)\<close> of \<open>getName\<close>, in source order, under the names the
  specification gives them (lines 160, 181, 198, 204, 211).\<close>

datatype NamingError =
    NamespaceUnderBasePath
  | InvalidNamespace
  | EmptyName
  | InvalidPath
  | DoubleDot

subsection \<open>Functions\<close>

text \<open>\<open>trimSlashes\<close> (lines 131-134): \<open>str?.replace(/^\/+/, '')?.replace(/\/+$/, '')\<close>.
  The first pattern matches the longest run of slashes at the start, the second the run
  of slashes that ends the string; \<open>undefined\<close> stays \<open>undefined\<close>.\<close>

definition trimSlashes :: "string option \<Rightarrow> string option" where
  "trimSlashes str =
     (case str of
        None \<Rightarrow> None
      | Some s \<Rightarrow> Some (rev (dropWhile (\<lambda>c. c = CHR ''/'') (rev (dropWhile (\<lambda>c. c = CHR ''/'') s)))))"

text \<open>\<open>pathToArray\<close> (lines 136-139): \<open>(path ?? '').split('/')\<close>.\<close>

definition pathToArray :: "string option \<Rightarrow> string list" where
  "pathToArray path = split CHR ''/'' (case path of None \<Rightarrow> [] | Some p \<Rightarrow> p)"

text \<open>The constructor (lines 149-155).\<close>

definition BasePathClass :: "Datapack \<Rightarrow> BasePathOptions \<Rightarrow> BasePathClass" where
  "BasePathClass dp basePath =
     \<lparr> namespace = BasePathOptions.namespace basePath,
       directory = trimSlashes (directory basePath),
       datapack = dp \<rparr>"

text \<open>\<open>child\<close> (lines 229-237). Its argument type omits \<open>namespace\<close>, so the model takes
  the optional child directory alone.\<close>

definition child :: "BasePathClass \<Rightarrow> string option \<Rightarrow> BasePathClass" where
  "child this childDirectory =
     (let newDirectory = pathToArray (trimSlashes childDirectory);
          oldDirectory = pathToArray (directory this)
      in BasePathClass (datapack this)
           \<lparr> namespace = BasePathOptions.namespace this,
             directory = Some (join ''/'' (oldDirectory @ newDirectory)) \<rparr>)"

text \<open>A stored directory has trimmed edges when it is undefined or empty, or when it
  neither starts nor ends with a slash and so the first and the last of its segments are
  not empty.\<close>

definition edgesTrimmed :: "string option \<Rightarrow> bool" where
  "edgesTrimmed d =
     (case d of
        None \<Rightarrow> True
      | Some s \<Rightarrow>
          s = [] \<or>
          (hd s \<noteq> CHR ''/'' \<and> last s \<noteq> CHR ''/'' \<and>
           hd (pathToArray d) \<noteq> [] \<and> last (pathToArray d) \<noteq> []))"

text \<open>The two patterns of \<open>getName\<close>: \<open>/^[0-9a-z_-]+$/\<close> (line 180) and
  \<open>/^[0-9a-z_\-/.]+$/\<close> (line 203). Neither has a flag, so \<open>^\<close> and \<open>$\<close> are the ends of
  the whole string: the string is not empty and each character is in the class.\<close>

definition namespaceChar :: "char \<Rightarrow> bool" where
  "namespaceChar c = (c \<in> set ''0123456789abcdefghijklmnopqrstuvwxyz_-'')"

definition pathChar :: "char \<Rightarrow> bool" where
  "pathChar c = (c \<in> set ''0123456789abcdefghijklmnopqrstuvwxyz_-/.'')"

definition matchNamespace :: "string \<Rightarrow> bool" where
  "matchNamespace s = (s \<noteq> [] \<and> list_all namespaceChar s)"

definition matchPath :: "string \<Rightarrow> bool" where
  "matchPath s = (s \<noteq> [] \<and> list_all pathChar s)"

text \<open>The path that \<open>getName\<close> joins (line 166): the directory, when it is defined, then
  the segments of the resource path.\<close>

definition joinedPath :: "BasePathClass \<Rightarrow> string \<Rightarrow> string" where
  "joinedPath this name =
     join ''/'' ((case directory this of None \<Rightarrow> [] | Some d \<Rightarrow> [d])
                 @ fullPath (getResourcePath (datapack this) name))"

text \<open>The namespace that \<open>getName\<close> validates (line 169):
  \<open>this.namespace ?? resourcePath.namespace\<close>.\<close>

definition finalNamespace :: "BasePathClass \<Rightarrow> string \<Rightarrow> string" where
  "finalNamespace this name =
     (case BasePathOptions.namespace this of
        None \<Rightarrow> ResourcePath.namespace (getResourcePath (datapack this) name)
      | Some ns \<Rightarrow> ns)"

text \<open>\<open>getName\<close> (lines 158-222). In line 216, \<open>!this.namespace\<close> holds for
  \<open>undefined\<close> and for the empty string.\<close>

definition getName :: "BasePathClass \<Rightarrow> string \<Rightarrow> NamingError + string" where
  "getName this name =
     (if BasePathOptions.namespace this \<noteq> None \<and> CHR '':'' \<in> set name
      then Inl NamespaceUnderBasePath
      else
        let path = joinedPath this name;
            ns = finalNamespace this name
        in if \<not> matchNamespace ns then Inl InvalidNamespace
           else if length path = 0 then Inl EmptyName
           else if \<not> matchPath path then Inl InvalidPath
           else if str_includes path ''..'' then Inl DoubleDot
           else if (BasePathOptions.namespace this = None \<or> BasePathOptions.namespace this = Some [])
                   \<and> CHR '':'' \<notin> set name
                then Inr path
           else Inr (ns @ '':'' @ path))"

text \<open>Modelled from the spec: \<open>Datapack.getResourcePath\<close> is not among the sources. The
  specification (4.1, steps 2 to 4) splits the name on the first \<open>:\<close> into an optional
  explicit namespace and a bare path, takes the segments of the bare path, and falls back
  to a default namespace that the host supplies. Used only to run the model on concrete
  inputs.\<close>

definition specResourcePath :: "string \<Rightarrow> string \<Rightarrow> ResourcePath" where
  "specResourcePath defaultNamespace name =
     (if CHR '':'' \<in> set name
      then \<lparr> ResourcePath.namespace = takeWhile (\<lambda>c. c \<noteq> CHR '':'') name,
             fullPath = pathToArray (Some (tl (dropWhile (\<lambda>c. c \<noteq> CHR '':'') name))) \<rparr>
      else \<lparr> ResourcePath.namespace = defaultNamespace, fullPath = pathToArray (Some name) \<rparr>)"

definition specDatapack :: Datapack where
  "specDatapack = \<lparr> getResourcePath = specResourcePath ''default'' \<rparr>"


section \<open>Target selectors: \<open>SelectorClass\<close> (Selector.ts)\<close>

subsection \<open>JavaScript values\<close>

text \<open>The values that selector arguments are made of. A number is modelled by the
  integer it denotes (the arguments that the claims below render are integers; a
  fraction, \<open>NaN\<close> or an integer of 22 digits or more is outside the model). An array
  is the list of its elements, an object the list of its own enumerable properties in
  the order \<open>Object.entries\<close> visits them.\<close>

datatype jsval =
    Undefined
  | Null
  | Bool bool
  | Num int
  | Str string
  | Arr "jsval list"
  | Obj "(string \<times> jsval) list"

text \<open>What the runtime throws on these values: \<open>TypeError\<close> (a property of \<open>null\<close> or
  \<open>undefined\<close>, a call of something that is not a function) and \<open>RangeError\<close> (the call
  stack is exhausted).\<close>

datatype JsError = TypeError | RangeError

type_synonym props = "(string \<times> jsval) list"

text \<open>Running a list of computations in order, stopping at the first that throws.\<close>

fun collect :: "('e + 'a) list \<Rightarrow> 'e + 'a list" where
  "collect [] = Inr []"
| "collect (Inl e # rs) = Inl e"
| "collect (Inr x # rs) = (case collect rs of Inl e \<Rightarrow> Inl e | Inr xs \<Rightarrow> Inr (x # xs))"

text \<open>\<open>Number.prototype.toString\<close> on an integer: its decimal digits, with a sign.\<close>

fun natToString :: "nat \<Rightarrow> string" where
  "natToString n =
     (if n < 10 then [''0123456789'' ! n]
      else natToString (n div 10) @ [''0123456789'' ! (n mod 10)])"

declare natToString.simps [simp del]

definition numberToString :: "int \<Rightarrow> string" where
  "numberToString n = (if n < 0 then ''-'' @ natToString (nat (- n)) else natToString (nat n))"

text \<open>The conversion to a string of a template literal and of \<open>join\<close> (\<open>ToString\<close> in the
  language standard). An array converts by joining its elements with a comma, where
  \<open>null\<close> and \<open>undefined\<close> elements give the empty string. An object converts through
  \<open>Object.prototype.toString\<close>, unless an own property \<open>toString\<close> hides it: no value
  of this model is a function, so the conversion then finds no method that returns a
  primitive and throws.\<close>

fun ToString :: "jsval \<Rightarrow> JsError + string" where
  "ToString Undefined = Inr ''undefined''"
| "ToString Null = Inr ''null''"
| "ToString (Bool b) = Inr (if b then ''true'' else ''false'')"
| "ToString (Num n) = Inr (numberToString n)"
| "ToString (Str s) = Inr s"
| "ToString (Arr xs) =
     (case collect (map (\<lambda>x. if x = Undefined \<or> x = Null then Inr [] else ToString x) xs) of
        Inl e \<Rightarrow> Inl e
      | Inr parts \<Rightarrow> Inr (join '','' parts))"
| "ToString (Obj ps) =
     (if ''toString'' \<in> set (map fst ps) then Inl TypeError else Inr ''[object Object]'')"

text \<open>\<open>Array.prototype.join\<close> on an array of any values.\<close>

definition Array_join :: "string \<Rightarrow> jsval list \<Rightarrow> JsError + string" where
  "Array_join sep xs =
     (case collect (map (\<lambda>x. if x = Undefined \<or> x = Null then Inr [] else ToString x) xs) of
        Inl e \<Rightarrow> Inl e
      | Inr parts \<Rightarrow> Inr (join sep parts))"

text \<open>The method call \<open>value.toString()\<close>: it throws on \<open>null\<close> and \<open>undefined\<close>, and
  otherwise converts as above.\<close>

definition toStringMethod :: "jsval \<Rightarrow> JsError + string" where
  "toStringMethod v = (if v = Undefined \<or> v = Null then Inl TypeError else ToString v)"

text \<open>\<open>Object.entries\<close>: it throws on \<open>null\<close> and \<open>undefined\<close>; a boolean or a number has
  no entry; a string has one per character and an array one per element, keyed by the
  index.\<close>

definition indexKeys :: "nat \<Rightarrow> string list" where
  "indexKeys n = map natToString [0..<n]"

fun Object_entries :: "jsval \<Rightarrow> JsError + props" where
  "Object_entries Undefined = Inl TypeError"
| "Object_entries Null = Inl TypeError"
| "Object_entries (Bool b) = Inr []"
| "Object_entries (Num n) = Inr []"
| "Object_entries (Str s) = Inr (zip (indexKeys (length s)) (map (\<lambda>c. Str [c]) s))"
| "Object_entries (Arr xs) = Inr (zip (indexKeys (length xs)) xs)"
| "Object_entries (Obj ps) = Inr ps"

text \<open>An element read \<open>value[i]\<close> of an array: \<open>undefined\<close> past the end.\<close>

definition element :: "jsval list \<Rightarrow> nat \<Rightarrow> jsval" where
  "element xs i = (if i < length xs then xs ! i else Undefined)"

text \<open>\<open>v ?? ''\<close>.\<close>

definition orEmpty :: "jsval \<Rightarrow> jsval" where
  "orEmpty v = (if v = Undefined \<or> v = Null then Str [] else v)"

text \<open>A property read \<open>args[name]\<close> of an object: \<open>undefined\<close> when the object has no
  such property (the names read below are not properties of \<open>Object.prototype\<close>), and
  \<open>delete args[name]\<close>.\<close>

definition getProp :: "props \<Rightarrow> string \<Rightarrow> jsval" where
  "getProp ps name = (case map_of ps name of None \<Rightarrow> Undefined | Some v \<Rightarrow> v)"

definition deleteProp :: "string \<Rightarrow> props \<Rightarrow> props" where
  "deleteProp name ps = filter (\<lambda>(k, v). k \<noteq> name) ps"

subsection \<open>\<open>parseScore\<close> and \<open>parseAdvancements\<close>\<close>

text \<open>One entry of \<open>parseScore\<close> (lines 143-147).\<close>

definition scoreEntry :: "string \<times> jsval \<Rightarrow> JsError + string" where
  "scoreEntry entry =
     (case entry of (scoreName, value) \<Rightarrow>
        (case value of
           Arr vs \<Rightarrow>
             (case ToString (orEmpty (element vs 0)) of
                Inl e \<Rightarrow> Inl e
              | Inr lo \<Rightarrow>
                  (case ToString (orEmpty (element vs 1)) of
                     Inl e \<Rightarrow> Inl e
                   | Inr hi \<Rightarrow> Array_join ''='' [Str scoreName, Str (lo @ ''..'' @ hi)]))
         | _ \<Rightarrow> Array_join ''='' [Str scoreName, value]))"

text \<open>\<open>parseScore\<close> (lines 142-149).\<close>

definition parseScore :: "jsval \<Rightarrow> JsError + string" where
  "parseScore scores =
     (case Object_entries scores of
        Inl e \<Rightarrow> Inl e
      | Inr entries \<Rightarrow>
          (case collect (map scoreEntry entries) of
             Inl e \<Rightarrow> Inl e
           | Inr parts \<Rightarrow> Inr (''{'' @ join '', '' parts @ ''}'')))"

text \<open>\<open>typeof value === 'boolean'\<close>.\<close>

definition isBoolean :: "jsval \<Rightarrow> bool" where
  "isBoolean v = (case v of Bool b \<Rightarrow> True | _ \<Rightarrow> False)"

definition nonEmptyString :: "jsval \<Rightarrow> bool" where
  "nonEmptyString v = (case v of Str s \<Rightarrow> s \<noteq> [] | _ \<Rightarrow> False)"

text \<open>\<open>parseAdvancements\<close> (lines 151-159). The function calls itself on every value
  that is not a boolean. On a one-character string \<open>Object.entries\<close> gives that same
  string back as the value of index 0, so on a string that is not empty the calls never
  end and the engine throws \<open>RangeError\<close> when the stack is full; on all other values the
  recursion goes into the sub-values and ends.\<close>

function parseAdvancements :: "jsval \<Rightarrow> JsError + string" where
  "parseAdvancements advancements =
     (if nonEmptyString advancements then Inl RangeError
      else
        (case Object_entries advancements of
           Inl e \<Rightarrow> Inl e
         | Inr entries \<Rightarrow>
             (case collect (map (\<lambda>(advancementName, value).
                       if isBoolean value
                       then Array_join ''='' [Str advancementName, value]
                       else (case parseAdvancements value of
                               Inl e \<Rightarrow> Inl e
                             | Inr nested \<Rightarrow> Array_join ''='' [Str advancementName, Str nested]))
                     entries) of
                Inl e \<Rightarrow> Inl e
              | Inr parts \<Rightarrow> Inr (''{'' @ join '', '' parts @ ''}''))))"
  by pat_completeness auto
termination
proof -
  have smaller: "size x < size v"
    if "Object_entries v = Inr es" and "(n, x) \<in> set es" and "\<not> nonEmptyString v"
    for v es n x
  proof (cases v)
    case (Arr xs)
    with that have "x \<in> set xs" by (auto dest: set_zip_rightD)
    then have "size x \<le> size_list size xs" by (rule size_list_estimation') simp
    with Arr show ?thesis by simp
  next
    case (Obj ps)
    with that have "(n, x) \<in> set ps" by simp
    then have "size x \<le> size_list (size_prod (\<lambda>_. 0) size) ps"
      by (rule size_list_estimation') simp
    with Obj show ?thesis by simp
  qed (use that in \<open>auto simp: nonEmptyString_def\<close>)
  show ?thesis
    by (relation "measure size") (auto dest: smaller)
qed

declare parseAdvancements.simps [simp del]

subsection \<open>The class\<close>

text \<open>Objects that the program can reach through more than one reference live in a
  store: a list of objects, addressed by position. \<open>toString\<close> copies the argument object
  and deletes keys from the copy, so the argument object of a selector is a reference
  into the store. The values inside an argument object are only read. A reference is
  the address of an object of the store; the theorems below say so where they read
  through one (\<open>arguments this < length h\<close>).\<close>

type_synonym addr = nat

type_synonym store = "props list"

text \<open>The command tree is not among the sources and \<open>toString\<close> never reads it: one
  opaque value stands for it.\<close>

datatype CommandsRoot = CommandsRoot

record SelectorClass =
  commandsRoot :: CommandsRoot
  target :: string
  arguments :: addr

text \<open>The constructor (lines 168-176): \<open>selectorArguments ?? {}\<close> keeps the reference it
  is given and allocates an empty object when there is none.\<close>

definition SelectorClass :: "CommandsRoot \<Rightarrow> string \<Rightarrow> addr option \<Rightarrow> store \<Rightarrow> SelectorClass \<times> store" where
  "SelectorClass root tgt selectorArguments h =
     (case selectorArguments of
        Some a \<Rightarrow> (\<lparr> commandsRoot = root, target = tgt, arguments = a \<rparr>, h)
      | None \<Rightarrow> (\<lparr> commandsRoot = root, target = tgt, arguments = length h \<rparr>, h @ [[]]))"

text \<open>\<open>Selector\<close> (lines 276-285). The type parameters \<open>T\<close> (single result) and \<open>U\<close>
  (players only) of the source exist for the type checker alone; the model passes them as
  two booleans, which the body, like the source's, does not read.\<close>

definition Selector :: "bool \<Rightarrow> bool \<Rightarrow> CommandsRoot \<Rightarrow> string \<Rightarrow> addr option \<Rightarrow> store \<Rightarrow> SelectorClass \<times> store" where
  "Selector T U this tgt selectorArguments h = SelectorClass this tgt selectorArguments h"

text \<open>The entries that \<open>result\<close> collects: a key and a value that the last line of
  \<open>toString\<close> converts to a string.\<close>

type_synonym pairs = "(string \<times> jsval) list"

text \<open>The object \<open>modifiers\<close> (lines 204-238), in the order of its keys. Each closure
  pushes entries onto \<open>result\<close>; the model returns the entries pushed.\<close>

definition modifiers :: "(string \<times> (jsval \<Rightarrow> JsError + pairs)) list" where
  "modifiers =
     [(''score'', \<lambda>score.
         case parseScore score of Inl e \<Rightarrow> Inl e | Inr s \<Rightarrow> Inr [(''score'', Str s)]),
      (''advancements'', \<lambda>advancements.
         case parseAdvancements advancements of
           Inl e \<Rightarrow> Inl e
         | Inr s \<Rightarrow> Inr [(''advancements'', Str s)]),
      (''tag'', \<lambda>tag.
         let tags = (case tag of Arr xs \<Rightarrow> xs | _ \<Rightarrow> [tag])
         in Inr (map (\<lambda>tag'. (''tag'', tag')) tags)),
      (''predicate'', \<lambda>predicate.
         let predicates = (case predicate of Arr xs \<Rightarrow> xs | _ \<Rightarrow> [predicate])
         in Inr (map (\<lambda>pred. (''predicate'', pred)) predicates)),
      (''team'', \<lambda>team.
         let teamRepr = (if team = Bool True then Str ''!''
                         else if team = Bool False then Str []
                         else team)
         in Inr [(''team'', teamRepr)])]"

text \<open>The loop over the modifiers (lines 240-248), on the object at address \<open>args\<close>.\<close>

fun runModifiers ::
  "(string \<times> (jsval \<Rightarrow> JsError + pairs)) list \<Rightarrow> addr \<Rightarrow> pairs \<Rightarrow> store \<Rightarrow> (JsError + pairs) \<times> store"
where
  "runModifiers [] args result h = (Inr result, h)"
| "runModifiers ((baseName, modifier) # rest) args result h =
     (let value = getProp (h ! args) baseName
      in if value \<noteq> Undefined
         then (case modifier value of
                 Inl e \<Rightarrow> (Inl e, h)
               | Inr pushed \<Rightarrow>
                   runModifiers rest args (result @ pushed)
                     (h[args := deleteProp baseName (h ! args)]))
         else runModifiers rest args result h)"

text \<open>The loop over the remaining entries (lines 250-254).\<close>

fun pushRemaining :: "props \<Rightarrow> pairs \<Rightarrow> JsError + pairs" where
  "pushRemaining [] result = Inr result"
| "pushRemaining ((key, value) # rest) result =
     (if value \<noteq> Undefined
      then (case toStringMethod value of
              Inl e \<Rightarrow> Inl e
            | Inr s \<Rightarrow> pushRemaining rest (result @ [(key, Str s)]))
      else pushRemaining rest result)"

text \<open>The last line of \<open>toString\<close> (line 257): each entry becomes \<open>`${key}=${value}`\<close>,
  and the entries are joined.\<close>

definition renderPair :: "string \<times> jsval \<Rightarrow> JsError + string" where
  "renderPair entry =
     (case entry of (key, value) \<Rightarrow>
        (case ToString value of Inl e \<Rightarrow> Inl e | Inr s \<Rightarrow> Inr (key @ ''='' @ s)))"

definition render :: "string \<Rightarrow> pairs \<Rightarrow> JsError + string" where
  "render tgt result =
     (case collect (map renderPair result) of
        Inl e \<Rightarrow> Inl e
      | Inr parts \<Rightarrow> Inr (tgt @ ''['' @ join '', '' parts @ '']''))"

text \<open>The array \<open>result\<close> that \<open>toString\<close> builds (lines 199-255), with the store after
  it: the copy \<open>{ ...this.arguments }\<close> is a new object at the end of the store.\<close>

definition collectPairs :: "SelectorClass \<Rightarrow> store \<Rightarrow> (JsError + pairs) \<times> store" where
  "collectPairs this h =
     (let args = length h;
          h1 = h @ [h ! arguments this]
      in case runModifiers modifiers args [] h1 of
           (Inl e, h2) \<Rightarrow> (Inl e, h2)
         | (Inr result, h2) \<Rightarrow> (pushRemaining (h2 ! args) result, h2))"

text \<open>\<open>toString\<close> (lines 194-258). The test \<open>if (this.arguments)\<close> of line 201 holds for
  every object.\<close>

definition toString :: "SelectorClass \<Rightarrow> store \<Rightarrow> (JsError + string) \<times> store" where
  "toString this h =
     (if length (h ! arguments this) = 0 then (Inr (target this), h)
      else case collectPairs this h of
             (Inl e, h2) \<Rightarrow> (Inl e, h2)
           | (Inr result, h2) \<Rightarrow> (render (target this) result, h2))"

subsection \<open>The type of the arguments\<close>

text \<open>The type \<open>SelectorProperties\<close> of the argument object (lines 5-140), as a predicate on
  values: \<open>Range\<close> is a number or a pair of bounds of which at most one is \<open>null\<close>;
  \<open>ScoreArgument\<close> maps names to ranges; \<open>AdvancementsArgument\<close> maps names to booleans or
  to records of booleans; each property is optional and has the type the source declares
  for its key. The predicate is the type without the two restrictions of a single-result
  or player-only selector, and an object has each of its keys once.\<close>

definition isNumber :: "jsval \<Rightarrow> bool" where
  "isNumber v = (case v of Num n \<Rightarrow> True | _ \<Rightarrow> False)"

definition isString :: "jsval \<Rightarrow> bool" where
  "isString v = (case v of Str s \<Rightarrow> True | _ \<Rightarrow> False)"

definition isRange :: "jsval \<Rightarrow> bool" where
  "isRange v =
     (case v of
        Num n \<Rightarrow> True
      | Arr xs \<Rightarrow> length xs = 2 \<and> list_all (\<lambda>x. isNumber x \<or> x = Null) xs \<and> xs \<noteq> [Null, Null]
      | _ \<Rightarrow> False)"

definition isScoreArgument :: "jsval \<Rightarrow> bool" where
  "isScoreArgument v = (case v of Obj es \<Rightarrow> list_all (\<lambda>e. isRange (snd e)) es | _ \<Rightarrow> False)"

definition isBooleanRecord :: "jsval \<Rightarrow> bool" where
  "isBooleanRecord v = (case v of Obj es \<Rightarrow> list_all (\<lambda>e. isBoolean (snd e)) es | _ \<Rightarrow> False)"

definition isAdvancementsArgument :: "jsval \<Rightarrow> bool" where
  "isAdvancementsArgument v =
     (case v of
        Obj es \<Rightarrow> list_all (\<lambda>e. isBoolean (snd e) \<or> isBooleanRecord (snd e)) es
      | _ \<Rightarrow> False)"

definition isStringOrStrings :: "jsval \<Rightarrow> bool" where
  "isStringOrStrings v = (case v of Str s \<Rightarrow> True | Arr xs \<Rightarrow> list_all isString xs | _ \<Rightarrow> False)"

definition hasPropertyType :: "string \<Rightarrow> jsval \<Rightarrow> bool" where
  "hasPropertyType key v =
     (if key \<in> set [''distance'', ''level'', ''x_rotation'', ''y_rotation''] then isRange v
      else if key = ''score'' then isScoreArgument v
      else if key = ''team'' then isString v \<or> isBoolean v
      else if key \<in> set [''tag'', ''predicate'', ''type''] then isStringOrStrings v
      else if key \<in> set [''name'', ''sort'', ''gamemode''] then isString v
      else if key = ''advancements'' then isAdvancementsArgument v
      else if key \<in> set [''x'', ''y'', ''z'', ''dx'', ''dy'', ''dz'', ''limit''] then isNumber v
      else False)"

definition SelectorProperties :: "props \<Rightarrow> bool" where
  "SelectorProperties ps =
     (distinct (map fst ps) \<and> list_all (\<lambda>e. snd e = Undefined \<or> hasPropertyType (fst e) (snd e)) ps)"

section \<open>Properties of resource naming\<close>

subsection \<open>Facts about the string helpers\<close>

lemma hd_split_empty: "(hd (split c s) = []) = (s = [] \<or> hd s = c)"
  by (cases s) (auto split: list.splits)

lemma split_not_Nil: "split c s \<noteq> []"
  by (induction s) (auto split: list.splits)

lemma split_snoc:
  "split c (xs @ [x]) =
     (if x = c then split c xs @ [[]] else butlast (split c xs) @ [last (split c xs) @ [x]])"
proof (induction xs)
  case Nil
  show ?case by simp
next
  case (Cons y ys)
  obtain w ws where w: "split c ys = w # ws"
    using split_not_Nil [of c ys] by (cases "split c ys") auto
  show ?case
  proof (cases "x = c")
    case True
    with Cons.IH show ?thesis by (simp add: w)
  next
    case False
    with Cons.IH show ?thesis by (cases ws) (simp_all add: w)
  qed
qed

lemma last_split_empty: "(last (split c s) = []) = (s = [] \<or> last s = c)"
  by (cases s rule: rev_cases) (simp_all add: split_snoc)

lemma trim_edges:
  fixes s :: string
  defines "t \<equiv> rev (dropWhile (\<lambda>c. c = CHR ''/'') (rev (dropWhile (\<lambda>c. c = CHR ''/'') s)))"
  assumes "t \<noteq> []"
  shows "hd t \<noteq> CHR ''/''" and "last t \<noteq> CHR ''/''"
proof -
  let ?P = "\<lambda>c. c = CHR ''/''"
  let ?u = "dropWhile ?P s"
  have "t @ rev (takeWhile ?P (rev ?u)) = rev (takeWhile ?P (rev ?u) @ dropWhile ?P (rev ?u))"
    unfolding t_def by (simp only: rev_append)
  also have "\<dots> = ?u"
    by (simp only: takeWhile_dropWhile_id rev_rev_ident)
  finally have u: "t @ rev (takeWhile ?P (rev ?u)) = ?u" .
  have "hd ?u = hd (t @ rev (takeWhile ?P (rev ?u)))" by (simp only: u)
  also have "\<dots> = hd t" using assms(2) by simp
  finally have "hd ?u = hd t" .
  moreover have "?u \<noteq> []"
  proof
    assume "?u = []"
    then have "t = []" unfolding t_def by (simp only: rev.simps dropWhile.simps)
    with assms(2) show False by simp
  qed
  then have "\<not> ?P (hd ?u)" by (rule hd_dropWhile)
  ultimately show "hd t \<noteq> CHR ''/''" by simp
  from assms(2) have "dropWhile ?P (rev ?u) \<noteq> []" by (simp add: t_def)
  then have "\<not> ?P (hd (dropWhile ?P (rev ?u)))" by (rule hd_dropWhile)
  moreover have "last t = hd (dropWhile ?P (rev ?u))"
    using assms(2) by (simp add: t_def last_rev)
  ultimately show "last t \<noteq> CHR ''/''" by simp
qed


lemma str_includes_iff: "str_includes s sub = (\<exists>pre post. s = pre @ sub @ post)"
proof (induction s)
  case Nil
  show ?case by auto
next
  case (Cons x xs)
  show ?case
  proof
    assume "str_includes (x # xs) sub"
    then consider "take (length sub) (x # xs) = sub" | "str_includes xs sub" by auto
    then show "\<exists>pre post. x # xs = pre @ sub @ post"
    proof cases
      case 1
      then have "x # xs = [] @ sub @ drop (length sub) (x # xs)"
        by (metis append_Nil append_take_drop_id)
      then show ?thesis by blast
    next
      case 2
      with Cons.IH obtain pre post where "xs = pre @ sub @ post" by auto
      then have "x # xs = (x # pre) @ sub @ post" by simp
      then show ?thesis by blast
    qed
  next
    assume "\<exists>pre post. x # xs = pre @ sub @ post"
    then obtain pre post where eq: "x # xs = pre @ sub @ post" by auto
    show "str_includes (x # xs) sub"
    proof (cases pre)
      case Nil
      with eq have "take (length sub) (x # xs) = sub" by simp
      then show ?thesis by simp
    next
      case (Cons p ps)
      with eq have "xs = ps @ sub @ post" by simp
      with Cons.IH have "str_includes xs sub" by blast
      then show ?thesis by simp
    qed
  qed
qed

lemmas naming_defs =
  BasePathClass_def specDatapack_def specResourcePath_def finalNamespace_def joinedPath_def
  pathToArray_def trimSlashes_def matchNamespace_def matchPath_def namespaceChar_def pathChar_def


lemma trimSlashes_edges: "edgesTrimmed (trimSlashes d)"
proof (cases d)
  case None
  then show ?thesis by (simp add: edgesTrimmed_def trimSlashes_def)
next
  case (Some s)
  show ?thesis
    using trim_edges [of s]
    by (auto simp: Some edgesTrimmed_def trimSlashes_def pathToArray_def hd_split_empty last_split_empty)
qed

subsection \<open>The directory of a naming context\<close>

text \<open>Claim C4, as the specification states it, fails: only the two ends of a directory
  are stripped, so a doubled slash inside it leaves an empty segment, in the root
  constructor and in \<open>child\<close> alike.\<close>

theorem directory_empty_segment_counterexample:
  "directory (BasePathClass specDatapack \<lparr> namespace = None, directory = Some ''a//b'' \<rparr>) = Some ''a//b'' \<and>
   pathToArray (Some ''a//b'') = [''a'', [], ''b''] \<and>
   directory (child (BasePathClass specDatapack \<lparr> namespace = None, directory = Some ''a'' \<rparr>) (Some ''b//c'')) = Some ''a/b//c'' \<and>
   pathToArray (Some ''a/b//c'') = [''a'', ''b'', [], ''c'']"
  by (simp add: BasePathClass_def child_def trimSlashes_def pathToArray_def)

text \<open>Claim C4, amended: for every naming context built by the constructor or by \<open>child\<close>,
  the stored directory has no leading and no trailing slash; when it is defined and not
  empty, its first and its last segment are not empty.\<close>

theorem directory_edges_trimmed:
  "edgesTrimmed (directory (BasePathClass dp basePath)) \<and>
   edgesTrimmed (directory (child this childDirectory))"
  by (simp add: BasePathClass_def child_def Let_def trimSlashes_edges)

theorem directory_edges_trimmed_witness:
  "directory (BasePathClass specDatapack \<lparr> namespace = None, directory = Some ''//a//b/'' \<rparr>) = Some ''a//b'' \<and>
   directory (child (BasePathClass specDatapack \<lparr> namespace = None, directory = None \<rparr>) (Some ''/c/'')) = Some ''c'' \<and>
   edgesTrimmed (Some ''a//b'') \<and> edgesTrimmed (Some ''c'')"
  using directory_edges_trimmed
    [of specDatapack "\<lparr> namespace = None, directory = Some ''//a//b/'' \<rparr>"
        "BasePathClass specDatapack \<lparr> namespace = None, directory = None \<rparr>" "Some ''/c/''"]
  by (simp add: BasePathClass_def child_def trimSlashes_def pathToArray_def)

subsection \<open>\<open>getName\<close>\<close>

text \<open>Claim C5: when the context has a namespace and the name contains a colon, \<open>getName\<close>
  fails with \<open>NamespaceUnderBasePath\<close> and returns no identifier; so does \<open>a:b\<close> under the
  namespace \<open>x\<close>.\<close>

theorem getName_namespace_under_base_path:
  assumes "BasePathOptions.namespace this = Some ns" and "CHR '':'' \<in> set name"
  shows "getName this name = Inl NamespaceUnderBasePath"
  using assms by (simp add: getName_def)

theorem getName_namespace_under_base_path_witness:
  "BasePathOptions.namespace (BasePathClass specDatapack \<lparr> namespace = Some ''x'', directory = None \<rparr>) = Some ''x'' \<and>
   CHR '':'' \<in> set ''a:b'' \<and>
   getName (BasePathClass specDatapack \<lparr> namespace = Some ''x'', directory = None \<rparr>) ''a:b''
     = Inl NamespaceUnderBasePath"
  using getName_namespace_under_base_path
    [of "BasePathClass specDatapack \<lparr> namespace = Some ''x'', directory = None \<rparr>" "''x''" "''a:b''"]
  by (simp add: BasePathClass_def)

text \<open>Claim C6: when \<open>getName\<close> succeeds, the identifier is the bare joined path exactly
  when the context has no namespace and the name has no colon; in every other case it is
  the namespace, a colon and the path.\<close>

theorem getName_textual_form:
  assumes "getName this name = Inr ident"
  shows "((ident = joinedPath this name)
            = (BasePathOptions.namespace this = None \<and> CHR '':'' \<notin> set name)) \<and>
         (ident = joinedPath this name \<or>
          ident = finalNamespace this name @ '':'' @ joinedPath this name)"
proof -
  have ne: "ns @ '':'' @ p \<noteq> p" for ns p :: string
  proof
    assume "ns @ '':'' @ p = p"
    then have "length (ns @ '':'' @ p) = length p" by simp
    then show False by simp
  qed
  show ?thesis
  proof (cases "BasePathOptions.namespace this")
    case None
    with assms ne show ?thesis
      by (auto simp: getName_def Let_def split: if_splits)
  next
    case (Some ns)
    with assms have "matchNamespace ns"
      by (auto simp: getName_def Let_def finalNamespace_def split: if_splits)
    then have "ns \<noteq> []" by (simp add: matchNamespace_def)
    with assms Some ne show ?thesis
      by (auto simp: getName_def Let_def split: if_splits)
  qed
qed

theorem getName_textual_form_witness:
  "getName (BasePathClass specDatapack \<lparr> namespace = None, directory = Some ''d'' \<rparr>) ''f'' = Inr ''d/f'' \<and>
   getName (BasePathClass specDatapack \<lparr> namespace = None, directory = Some ''d'' \<rparr>) ''n:f'' = Inr ''n:d/f'' \<and>
   getName (BasePathClass specDatapack \<lparr> namespace = Some ''x'', directory = Some ''d'' \<rparr>) ''f'' = Inr ''x:d/f''"
  using getName_textual_form [of "BasePathClass specDatapack \<lparr> namespace = None, directory = Some ''d'' \<rparr>" "''f''" "''d/f''"]
    getName_textual_form [of "BasePathClass specDatapack \<lparr> namespace = None, directory = Some ''d'' \<rparr>" "''n:f''" "''n:d/f''"]
    getName_textual_form [of "BasePathClass specDatapack \<lparr> namespace = Some ''x'', directory = Some ''d'' \<rparr>" "''f''" "''x:d/f''"]
  by (simp add: naming_defs getName_def)


text \<open>Claim C7: once the namespace checks have passed, \<open>getName\<close> fails with \<open>EmptyName\<close>
  exactly when the joined path is empty; otherwise with \<open>InvalidPath\<close> exactly when the path
  does not match the pattern; otherwise with \<open>DoubleDot\<close> exactly when the path contains
  two consecutive dots. The names \<open>Foo\<close> and \<open>a..b\<close> fail with the second and third
  error.\<close>

theorem getName_path_checks:
  assumes "\<not> (BasePathOptions.namespace this \<noteq> None \<and> CHR '':'' \<in> set name)"
    and "matchNamespace (finalNamespace this name)"
  shows "((getName this name = Inl EmptyName) = (length (joinedPath this name) = 0)) \<and>
         (length (joinedPath this name) \<noteq> 0 \<longrightarrow>
            ((getName this name = Inl InvalidPath) = (\<not> matchPath (joinedPath this name)))) \<and>
         (length (joinedPath this name) \<noteq> 0 \<and> matchPath (joinedPath this name) \<longrightarrow>
            ((getName this name = Inl DoubleDot)
               = (\<exists>pre post. joinedPath this name = pre @ ''..'' @ post)))"
proof -
  have dd: "(\<exists>pre post. joinedPath this name = pre @ ''..'' @ post)
              = str_includes (joinedPath this name) ''..''"
    by (rule str_includes_iff [symmetric])
  show ?thesis
    unfolding dd using assms by (auto simp: getName_def Let_def)
qed

theorem getName_path_checks_witness:
  "getName (BasePathClass specDatapack \<lparr> namespace = None, directory = None \<rparr>) ''Foo'' = Inl InvalidPath \<and>
   getName (BasePathClass specDatapack \<lparr> namespace = None, directory = None \<rparr>) ''a..b'' = Inl DoubleDot \<and>
   getName (BasePathClass specDatapack \<lparr> namespace = None, directory = None \<rparr>) [] = Inl EmptyName"
  using getName_path_checks [of "BasePathClass specDatapack \<lparr> namespace = None, directory = None \<rparr>" "''Foo''"]
    getName_path_checks [of "BasePathClass specDatapack \<lparr> namespace = None, directory = None \<rparr>" "''a..b''"]
    getName_path_checks [of "BasePathClass specDatapack \<lparr> namespace = None, directory = None \<rparr>" "[]"]
  by (simp add: naming_defs getName_def)


section \<open>Properties of the selector encoder\<close>

subsection \<open>Facts about the two loops and the store\<close>

lemmas selector_defs =
  toString_def collectPairs_def modifiers_def getProp_def deleteProp_def toStringMethod_def
  render_def renderPair_def numberToString_def parseScore_def scoreEntry_def Array_join_def element_def
  orEmpty_def indexKeys_def isBoolean_def nonEmptyString_def

lemma getProp_undefined:
  assumes "\<forall>v \<in> snd ` set ps. v = Undefined"
  shows "getProp ps name = Undefined"
proof (cases "map_of ps name")
  case None
  then show ?thesis by (simp add: getProp_def)
next
  case (Some v)
  then have "(name, v) \<in> set ps" by (rule map_of_SomeD)
  then have "v \<in> snd ` set ps" by force
  with assms have "v = Undefined" by blast
  with Some show ?thesis by (simp add: getProp_def)
qed

lemma runModifiers_skip:
  assumes "\<forall>name. getProp (h ! a) name = Undefined"
  shows "runModifiers ms a result h = (Inr result, h)"
  using assms by (induction ms arbitrary: result) auto

lemma pushRemaining_skip:
  assumes "\<forall>v \<in> snd ` set ps. v = Undefined"
  shows "pushRemaining ps result = Inr result"
  using assms by (induction ps arbitrary: result) auto

lemma runModifiers_local:
  assumes "a < length h"
  shows "runModifiers ms a result h =
           (fst (runModifiers ms 0 result [h ! a]),
            h[a := snd (runModifiers ms 0 result [h ! a]) ! 0])"
  using assms
proof (induction ms arbitrary: result h)
  case Nil
  show ?case by simp
next
  case (Cons entry rest)
  obtain name modifier where entry: "entry = (name, modifier)" by (cases entry)
  let ?v = "getProp (h ! a) name"
  show ?case
  proof (cases "?v = Undefined")
    case True
    with Cons show ?thesis by (simp add: entry)
  next
    case False
    show ?thesis
    proof (cases "modifier ?v")
      case (Inl e)
      with False show ?thesis by (simp add: entry)
    next
      case (Inr pushed)
      let ?d = "deleteProp name (h ! a)"
      have len: "a < length (h[a := ?d])" using Cons.prems by simp
      have "runModifiers (entry # rest) a result h
              = runModifiers rest a (result @ pushed) (h[a := ?d])"
        using False Inr by (simp add: entry)
      also have "\<dots> = (fst (runModifiers rest 0 (result @ pushed) [?d]),
                        h[a := snd (runModifiers rest 0 (result @ pushed) [?d]) ! 0])"
        using Cons.IH [OF len, of "result @ pushed"] Cons.prems by simp
      also have "runModifiers rest 0 (result @ pushed) [?d]
                   = runModifiers (entry # rest) 0 result [h ! a]"
        using False Inr by (simp add: entry)
      finally show ?thesis .
    qed
  qed
qed

lemma collectPairs_local:
  assumes "arguments this < length h"
  shows "collectPairs this h =
           (case runModifiers modifiers 0 [] [h ! arguments this] of
              (Inl e, s) \<Rightarrow> (Inl e, h @ [s ! 0])
            | (Inr result, s) \<Rightarrow> (pushRemaining (s ! 0) result, h @ [s ! 0]))"
proof -
  let ?ps = "h ! arguments this"
  have "runModifiers modifiers (length h) [] (h @ [?ps])
          = (fst (runModifiers modifiers 0 [] [?ps]),
             h @ [snd (runModifiers modifiers 0 [] [?ps]) ! 0])"
    using runModifiers_local [of "length h" "h @ [?ps]" modifiers "[]"] by simp
  then show ?thesis
    by (simp add: collectPairs_def Let_def split: prod.splits sum.splits)
qed

lemma toString_local:
  assumes "arguments this < length h"
  shows "fst (toString this h) =
           fst (toString \<lparr> commandsRoot = CommandsRoot, target = target this, arguments = 0 \<rparr>
                  [h ! arguments this])"
  using assms
  by (simp add: toString_def collectPairs_local split: prod.splits sum.splits)

lemma toString_store:
  assumes "arguments this < length h"
  shows "snd (toString this h) = h \<or> (\<exists>ps. snd (toString this h) = h @ [ps])"
  using assms
  by (simp add: toString_def collectPairs_local split: prod.splits sum.splits)

lemma getProp_deleteProp_other:
  "k \<noteq> name \<Longrightarrow> getProp (deleteProp name ps) k = getProp ps k"
  by (induction ps) (auto simp: getProp_def deleteProp_def)

lemma set_deleteProp: "set (deleteProp name ps) \<subseteq> set ps"
  by (auto simp: deleteProp_def)

lemma key_deleteProp: "name \<notin> fst ` set (deleteProp name ps)"
  by (auto simp: deleteProp_def)

lemma runModifiers_pushed:
  assumes "a < length h"
    and "runModifiers ms a result h = (Inr r, h')"
    and "\<forall>(name, modifier) \<in> set ms. \<forall>v ps. modifier v = Inr ps \<longrightarrow> fst ` set ps \<subseteq> {name}"
  shows "(\<exists>pushed. r = result @ pushed \<and> fst ` set pushed \<subseteq> fst ` set ms) \<and>
         length h' = length h \<and> set (h' ! a) \<subseteq> set (h ! a) \<and>
         (\<forall>k. k \<notin> fst ` set ms \<longrightarrow> getProp (h' ! a) k = getProp (h ! a) k)"
  using assms
proof (induction ms arbitrary: result h)
  case Nil
  then show ?case by simp
next
  case (Cons entry rest)
  obtain name modifier where entry: "entry = (name, modifier)" by (cases entry)
  have own: "\<forall>(name, modifier) \<in> set rest. \<forall>v ps. modifier v = Inr ps \<longrightarrow> fst ` set ps \<subseteq> {name}"
    using Cons.prems(3) by simp
  let ?v = "getProp (h ! a) name"
  show ?case
  proof (cases "?v = Undefined")
    case True
    with Cons.prems(2) have "runModifiers rest a result h = (Inr r, h')"
      by (simp add: entry)
    from Cons.IH [OF Cons.prems(1) this own]
    obtain more where "r = result @ more" "fst ` set more \<subseteq> fst ` set rest"
      and "length h' = length h" "set (h' ! a) \<subseteq> set (h ! a)"
      and "\<forall>k. k \<notin> fst ` set rest \<longrightarrow> getProp (h' ! a) k = getProp (h ! a) k"
      by blast
    moreover from this(2) have "fst ` set more \<subseteq> fst ` set (entry # rest)" by auto
    moreover from calculation(5)
    have "\<forall>k. k \<notin> fst ` set (entry # rest) \<longrightarrow> getProp (h' ! a) k = getProp (h ! a) k"
      by simp
    ultimately show ?thesis by blast
  next
    case False
    show ?thesis
    proof (cases "modifier ?v")
      case (Inl e)
      with False Cons.prems(2) show ?thesis by (simp add: entry)
    next
      case (Inr pushed)
      let ?d = "deleteProp name (h ! a)"
      have len: "a < length (h[a := ?d])" using Cons.prems(1) by simp
      have run: "runModifiers rest a (result @ pushed) (h[a := ?d]) = (Inr r, h')"
        using False Inr Cons.prems(2) by (simp add: entry)
      have keys: "fst ` set pushed \<subseteq> {name}"
        using Cons.prems(3) Inr by (simp add: entry)
      from Cons.IH [OF len run own]
      obtain more where more: "r = (result @ pushed) @ more" "fst ` set more \<subseteq> fst ` set rest"
        and l: "length h' = length (h[a := ?d])"
        and sub: "set (h' ! a) \<subseteq> set (h[a := ?d] ! a)"
        and same: "\<forall>k. k \<notin> fst ` set rest \<longrightarrow> getProp (h' ! a) k = getProp (h[a := ?d] ! a) k"
        by blast
      have "r = result @ (pushed @ more)" using more(1) by simp
      moreover have "fst ` set (pushed @ more) \<subseteq> fst ` set (entry # rest)"
        using keys more(2) by (auto simp: entry)
      moreover have "set (h' ! a) \<subseteq> set (h ! a)"
        using sub Cons.prems(1) set_deleteProp [of name "h ! a"] by auto
      moreover have "getProp (h' ! a) k = getProp (h ! a) k" if "k \<notin> fst ` set (entry # rest)" for k
        using that same Cons.prems(1) by (simp add: entry getProp_deleteProp_other)
      ultimately show ?thesis using l by auto
    qed
  qed
qed

lemma pushRemaining_pushed:
  assumes "pushRemaining ps result = Inr r"
  shows "\<exists>rest. r = result @ rest \<and>
           (\<forall>k v. (k, v) \<in> set rest \<longrightarrow> (\<exists>w. (k, w) \<in> set ps \<and> w \<noteq> Undefined))"
  using assms
proof (induction ps arbitrary: result)
  case Nil
  then show ?case by simp
next
  case (Cons entry ps)
  obtain key val where entry: "entry = (key, val)" by (cases entry)
  show ?case
  proof (cases "val = Undefined")
    case True
    with Cons.prems have "pushRemaining ps result = Inr r" by (simp add: entry)
    from Cons.IH [OF this] obtain rest where "r = result @ rest"
      "\<forall>k v. (k, v) \<in> set rest \<longrightarrow> (\<exists>w. (k, w) \<in> set ps \<and> w \<noteq> Undefined)" by blast
    moreover from this(2)
    have "\<forall>k v. (k, v) \<in> set rest \<longrightarrow> (\<exists>w. (k, w) \<in> set (entry # ps) \<and> w \<noteq> Undefined)"
      by auto
    ultimately show ?thesis by blast
  next
    case False
    with Cons.prems obtain s where s: "toStringMethod val = Inr s"
      and run: "pushRemaining ps (result @ [(key, Str s)]) = Inr r"
      by (auto simp: entry split: sum.splits)
    from Cons.IH [OF run] obtain rest where rest: "r = (result @ [(key, Str s)]) @ rest"
      "\<forall>k v. (k, v) \<in> set rest \<longrightarrow> (\<exists>w. (k, w) \<in> set ps \<and> w \<noteq> Undefined)" by blast
    have "r = result @ ((key, Str s) # rest)" using rest(1) by simp
    moreover have "\<forall>k v. (k, v) \<in> set ((key, Str s) # rest)
                     \<longrightarrow> (\<exists>w. (k, w) \<in> set (entry # ps) \<and> w \<noteq> Undefined)"
      using rest(2) False by (auto simp: entry)
    ultimately show ?thesis by blast
  qed
qed

lemma runModifiers_append:
  "runModifiers (ms1 @ ms2) a result h =
     (case runModifiers ms1 a result h of
        (Inl e, h') \<Rightarrow> (Inl e, h')
      | (Inr r, h') \<Rightarrow> runModifiers ms2 a r h')"
  by (induction ms1 arbitrary: result h) (auto simp: Let_def split: sum.splits)

lemma modifiers_split:
  "modifiers = take 2 modifiers
     @ (''tag'', \<lambda>tag. Inr (map (\<lambda>t. (''tag'', t)) (case tag of Arr xs \<Rightarrow> xs | _ \<Rightarrow> [tag])))
     # drop 3 modifiers"
  by (simp add: modifiers_def Let_def)

lemma modifiers_before_tag: "fst ` set (take 2 modifiers) = {''score'', ''advancements''}"
  by (auto simp: modifiers_def)

lemma modifiers_after_tag: "fst ` set (drop 3 modifiers) = {''predicate'', ''team''}"
  by (auto simp: modifiers_def)

lemma modifiers_own_key:
  "\<forall>(name, modifier) \<in> set modifiers. \<forall>v ps. modifier v = Inr ps \<longrightarrow> fst ` set ps \<subseteq> {name}"
  by (auto simp: modifiers_def Let_def split: sum.splits)

lemma collect_append:
  "collect (xs @ ys) =
     (case collect xs of
        Inl e \<Rightarrow> Inl e
      | Inr as \<Rightarrow> (case collect ys of Inl e \<Rightarrow> Inl e | Inr bs \<Rightarrow> Inr (as @ bs)))"
  by (induction xs rule: collect.induct) (auto split: sum.splits)

lemma collect_length: "collect xs = Inr ys \<Longrightarrow> length ys = length xs"
  by (induction xs arbitrary: ys rule: collect.induct) (auto split: sum.splits)

lemma collect_tags:
  "collect (map renderPair (map (\<lambda>t. (''tag'', Str t)) ts)) = Inr (map (\<lambda>t. ''tag='' @ t) ts)"
  by (induction ts) (auto simp: renderPair_def)

lemma render_tags:
  assumes "render tgt (pre @ map (\<lambda>t. (''tag'', Str t)) ts @ post) = Inr s"
  shows "\<exists>A B. s = tgt @ ''['' @ join '', '' (A @ map (\<lambda>t. ''tag='' @ t) ts @ B) @ '']''
           \<and> length A = length pre \<and> length B = length post"
proof -
  from assms obtain A where A: "collect (map renderPair pre) = Inr A"
    by (auto simp: render_def collect_append split: sum.splits)
  from assms obtain B where B: "collect (map renderPair post) = Inr B"
    by (auto simp: render_def collect_append split: sum.splits)
  from assms A B have "s = tgt @ ''['' @ join '', '' (A @ map (\<lambda>t. ''tag='' @ t) ts @ B) @ '']''"
    by (simp add: render_def collect_append collect_tags del: map_map)
  moreover from A B have "length A = length pre" "length B = length post"
    by (auto dest: collect_length)
  ultimately show ?thesis by blast
qed

subsection \<open>Well-typed arguments never throw\<close>

lemma collect_all_Inr:
  assumes "list_all (\<lambda>x. \<exists>y. x = Inr y) xs"
  shows "\<exists>ys. collect xs = Inr ys"
  using assms by (induction xs rule: collect.induct) auto

lemma ToString_simple:
  assumes "isNumber v \<or> isString v \<or> isBoolean v \<or> v = Null \<or> v = Undefined"
  shows "\<exists>s. ToString v = Inr s"
  using assms by (cases v) (auto simp: isNumber_def isString_def isBoolean_def)

lemma ToString_simple_array:
  assumes "list_all (\<lambda>x. isNumber x \<or> isString x \<or> x = Null) xs"
  shows "\<exists>s. ToString (Arr xs) = Inr s"
proof -
  have "list_all (\<lambda>x. \<exists>y. x = Inr y)
          (map (\<lambda>x. if x = Undefined \<or> x = Null then Inr [] else ToString x) xs)"
    using assms ToString_simple by (auto simp: list_all_iff)
  then obtain parts where
    "collect (map (\<lambda>x. if x = Undefined \<or> x = Null then Inr [] else ToString x) xs) = Inr parts"
    using collect_all_Inr by blast
  then show ?thesis by simp
qed

lemma Array_join_simple:
  assumes "isNumber v \<or> isString v \<or> isBoolean v"
  shows "\<exists>s. Array_join sep [Str name, v] = Inr s"
  using ToString_simple [of v] assms by (auto simp: Array_join_def)

lemma scoreEntry_range:
  assumes "isRange (snd e)"
  shows "\<exists>s. scoreEntry e = Inr s"
proof (cases e)
  case (Pair name v)
  show ?thesis
  proof (cases v)
    case (Num n)
    then show ?thesis using Pair by (simp add: scoreEntry_def Array_join_def)
  next
    case (Arr xs)
    with assms Pair have "length xs = 2" and "list_all (\<lambda>x. isNumber x \<or> x = Null) xs"
      by (simp_all add: isRange_def)
    then obtain x y where xs: "xs = [x, y]" and x: "isNumber x \<or> x = Null" and y: "isNumber y \<or> y = Null"
      by (cases xs; cases "tl xs") auto
    from x obtain lo where lo: "ToString (orEmpty x) = Inr lo"
      by (cases x) (auto simp: orEmpty_def isNumber_def)
    from y obtain hi where hi: "ToString (orEmpty y) = Inr hi"
      by (cases y) (auto simp: orEmpty_def isNumber_def)
    show ?thesis
      using Pair Arr xs lo hi by (simp add: scoreEntry_def element_def Array_join_def)
  qed (use assms Pair in \<open>simp_all add: isRange_def\<close>)
qed

lemma parseScore_typed:
  assumes "isScoreArgument v"
  shows "\<exists>s. parseScore v = Inr s"
proof -
  from assms obtain es where v: "v = Obj es" and es: "list_all (\<lambda>e. isRange (snd e)) es"
    by (cases v) (simp_all add: isScoreArgument_def)
  have "list_all (\<lambda>x. \<exists>y. x = Inr y) (map scoreEntry es)"
    using es scoreEntry_range by (auto simp: list_all_iff)
  then obtain parts where "collect (map scoreEntry es) = Inr parts"
    using collect_all_Inr by blast
  then show ?thesis by (simp add: v parseScore_def)
qed

lemma parseAdvancements_booleans:
  assumes "isBooleanRecord v"
  shows "\<exists>s. parseAdvancements v = Inr s"
proof -
  from assms obtain es where v: "v = Obj es" and es: "list_all (\<lambda>e. isBoolean (snd e)) es"
    by (cases v) (simp_all add: isBooleanRecord_def)
  let ?f = "\<lambda>(advancementName, value).
              if isBoolean value then Array_join ''='' [Str advancementName, value]
              else (case parseAdvancements value of
                      Inl e \<Rightarrow> Inl e
                    | Inr nested \<Rightarrow> Array_join ''='' [Str advancementName, Str nested])"
  have "list_all (\<lambda>x. \<exists>y. x = Inr y) (map ?f es)"
    using es Array_join_simple by (auto simp: list_all_iff)
  then obtain parts where "collect (map ?f es) = Inr parts"
    using collect_all_Inr by blast
  then show ?thesis
    by (simp add: v parseAdvancements.simps [of "Obj es"] nonEmptyString_def)
qed

lemma parseAdvancements_typed:
  assumes "isAdvancementsArgument v"
  shows "\<exists>s. parseAdvancements v = Inr s"
proof -
  from assms obtain es where v: "v = Obj es"
    and es: "list_all (\<lambda>e. isBoolean (snd e) \<or> isBooleanRecord (snd e)) es"
    by (cases v) (simp_all add: isAdvancementsArgument_def)
  let ?f = "\<lambda>(advancementName, value).
              if isBoolean value then Array_join ''='' [Str advancementName, value]
              else (case parseAdvancements value of
                      Inl e \<Rightarrow> Inl e
                    | Inr nested \<Rightarrow> Array_join ''='' [Str advancementName, Str nested])"
  have "\<exists>y. ?f e = Inr y" if "e \<in> set es" for e
  proof (cases e)
    case (Pair name x)
    show ?thesis
    proof (cases "isBoolean x")
      case True
      then show ?thesis using Pair Array_join_simple [of x "''=''" name] by simp
    next
      case False
      with es that Pair have "isBooleanRecord x" by (auto simp: list_all_iff)
      then obtain nested where "parseAdvancements x = Inr nested"
        using parseAdvancements_booleans by blast
      then show ?thesis using Pair False by (simp add: Array_join_def)
    qed
  qed
  then have "list_all (\<lambda>x. \<exists>y. x = Inr y) (map ?f es)"
    by (simp add: list_all_iff)
  then obtain parts where "collect (map ?f es) = Inr parts"
    using collect_all_Inr by blast
  then show ?thesis
    by (simp add: v parseAdvancements.simps [of "Obj es"] nonEmptyString_def)
qed

lemma getProp_deleteProp_same: "getProp (deleteProp name ps) name = Undefined"
proof -
  have "name \<notin> fst ` set (deleteProp name ps)" by (rule key_deleteProp)
  then have "map_of (deleteProp name ps) name = None" by (simp add: map_of_eq_None_iff)
  then show ?thesis by (simp add: getProp_def)
qed

lemma distinct_deleteProp: "distinct (map fst ps) \<Longrightarrow> distinct (map fst (deleteProp name ps))"
  by (simp add: deleteProp_def distinct_map_filter)

lemma runModifiers_succeeds:
  assumes "a < length h"
    and "distinct (map fst ms)"
    and "\<forall>(name, modifier) \<in> set ms.
           getProp (h ! a) name = Undefined \<or>
           (\<exists>pushed. modifier (getProp (h ! a) name) = Inr pushed \<and> list_all (\<lambda>e. isString (snd e)) pushed)"
  shows "\<exists>r h'. runModifiers ms a result h = (Inr (result @ r), h') \<and>
           list_all (\<lambda>e. isString (snd e)) r \<and> length h' = length h \<and>
           set (h' ! a) \<subseteq> set (h ! a) \<and>
           (distinct (map fst (h ! a)) \<longrightarrow> distinct (map fst (h' ! a))) \<and>
           (\<forall>name \<in> fst ` set ms. getProp (h' ! a) name = Undefined) \<and>
           (\<forall>k. k \<notin> fst ` set ms \<longrightarrow> getProp (h' ! a) k = getProp (h ! a) k)"
  using assms
proof (induction ms arbitrary: result h)
  case Nil
  then show ?case by simp
next
  case (Cons entry rest)
  obtain name modifier where entry: "entry = (name, modifier)" by (cases entry)
  have fresh: "name \<notin> fst ` set rest" and dist: "distinct (map fst rest)"
    using Cons.prems(2) by (auto simp: entry)
  let ?v = "getProp (h ! a) name"
  let ?ok = "\<lambda>g. \<forall>(name, modifier) \<in> set rest.
                getProp (g ! a) name = Undefined \<or>
                (\<exists>pushed. modifier (getProp (g ! a) name) = Inr pushed \<and> list_all (\<lambda>e. isString (snd e)) pushed)"
  show ?case
  proof (cases "?v = Undefined")
    case True
    have ok: "?ok h" using Cons.prems(3) by simp
    from Cons.IH [OF Cons.prems(1) dist ok, of result]
    obtain r h' where run: "runModifiers rest a result h = (Inr (result @ r), h')"
      and r: "list_all (\<lambda>e. isString (snd e)) r" "length h' = length h"
        "set (h' ! a) \<subseteq> set (h ! a)"
        "distinct (map fst (h ! a)) \<longrightarrow> distinct (map fst (h' ! a))"
      and gone: "\<forall>name \<in> fst ` set rest. getProp (h' ! a) name = Undefined"
      and same: "\<forall>k. k \<notin> fst ` set rest \<longrightarrow> getProp (h' ! a) k = getProp (h ! a) k"
      by blast
    have "runModifiers (entry # rest) a result h = (Inr (result @ r), h')"
      using True run by (simp add: entry)
    moreover have "\<forall>n \<in> fst ` set (entry # rest). getProp (h' ! a) n = Undefined"
      using gone same fresh True by (auto simp: entry)
    moreover have "\<forall>k. k \<notin> fst ` set (entry # rest) \<longrightarrow> getProp (h' ! a) k = getProp (h ! a) k"
      using same by simp
    ultimately show ?thesis using r by blast
  next
    case False
    with Cons.prems(3) obtain pushed where pushed: "modifier ?v = Inr pushed"
      and strings: "list_all (\<lambda>e. isString (snd e)) pushed"
      by (auto simp: entry)
    let ?h1 = "h[a := deleteProp name (h ! a)]"
    have len: "a < length ?h1" using Cons.prems(1) by simp
    have at: "?h1 ! a = deleteProp name (h ! a)" using Cons.prems(1) by simp
    have other: "getProp (?h1 ! a) k = getProp (h ! a) k" if "k \<noteq> name" for k
      using that by (simp add: at getProp_deleteProp_other)
    have ok: "?ok ?h1"
    proof -
      have "getProp (?h1 ! a) n = Undefined \<or>
              (\<exists>pushed. m (getProp (?h1 ! a) n) = Inr pushed \<and> list_all (\<lambda>e. isString (snd e)) pushed)"
        if nm: "(n, m) \<in> set rest" for n m
      proof -
        from nm have "n \<noteq> name" using fresh by force
        then have "getProp (?h1 ! a) n = getProp (h ! a) n" by (rule other)
        moreover from nm Cons.prems(3)
        have "getProp (h ! a) n = Undefined \<or>
                (\<exists>pushed. m (getProp (h ! a) n) = Inr pushed \<and> list_all (\<lambda>e. isString (snd e)) pushed)"
          by auto
        ultimately show ?thesis by simp
      qed
      then show ?thesis by blast
    qed
    from Cons.IH [OF len dist ok, of "result @ pushed"]
    obtain r h' where run: "runModifiers rest a (result @ pushed) ?h1 = (Inr ((result @ pushed) @ r), h')"
      and r: "list_all (\<lambda>e. isString (snd e)) r" "length h' = length ?h1"
        "set (h' ! a) \<subseteq> set (?h1 ! a)"
        "distinct (map fst (?h1 ! a)) \<longrightarrow> distinct (map fst (h' ! a))"
      and gone: "\<forall>name \<in> fst ` set rest. getProp (h' ! a) name = Undefined"
      and same: "\<forall>k. k \<notin> fst ` set rest \<longrightarrow> getProp (h' ! a) k = getProp (?h1 ! a) k"
      by blast
    have "runModifiers (entry # rest) a result h = (Inr (result @ (pushed @ r)), h')"
      using False pushed run by (simp add: entry)
    moreover have "list_all (\<lambda>e. isString (snd e)) (pushed @ r)"
      using strings r(1) by simp
    moreover have "length h' = length h" using r(2) by simp
    moreover have "set (h' ! a) \<subseteq> set (h ! a)"
      using r(3) set_deleteProp [of name "h ! a"] by (auto simp: at)
    moreover have "distinct (map fst (h ! a)) \<longrightarrow> distinct (map fst (h' ! a))"
      using r(4) by (simp add: at distinct_deleteProp)
    moreover have "\<forall>n \<in> fst ` set (entry # rest). getProp (h' ! a) n = Undefined"
    proof -
      have "getProp (h' ! a) name = getProp (?h1 ! a) name" using same fresh by blast
      then have "getProp (h' ! a) name = Undefined" by (simp add: at getProp_deleteProp_same)
      with gone show ?thesis by (auto simp: entry)
    qed
    moreover have "\<forall>k. k \<notin> fst ` set (entry # rest) \<longrightarrow> getProp (h' ! a) k = getProp (h ! a) k"
      using same other by (auto simp: entry)
    ultimately show ?thesis by blast
  qed
qed

lemma pushRemaining_succeeds:
  assumes "\<forall>(k, v) \<in> set ps. v = Undefined \<or> (\<exists>s. toStringMethod v = Inr s)"
  shows "\<exists>rest. pushRemaining ps result = Inr (result @ rest) \<and> list_all (\<lambda>e. isString (snd e)) rest"
  using assms
proof (induction ps arbitrary: result)
  case Nil
  then show ?case by simp
next
  case (Cons entry ps)
  obtain key val where entry: "entry = (key, val)" by (cases entry)
  have tail: "\<forall>(k, v) \<in> set ps. v = Undefined \<or> (\<exists>s. toStringMethod v = Inr s)"
    using Cons.prems by simp
  show ?case
  proof (cases "val = Undefined")
    case True
    with Cons.IH [OF tail, of result] show ?thesis by (simp add: entry)
  next
    case False
    with Cons.prems obtain s where s: "toStringMethod val = Inr s" by (auto simp: entry)
    from Cons.IH [OF tail, of "result @ [(key, Str s)]"]
    obtain rest where "pushRemaining ps (result @ [(key, Str s)]) = Inr ((result @ [(key, Str s)]) @ rest)"
      and "list_all (\<lambda>e. isString (snd e)) rest" by blast
    then have "pushRemaining (entry # ps) result = Inr (result @ ((key, Str s) # rest))"
      and "list_all (\<lambda>e. isString (snd e)) ((key, Str s) # rest)"
      using False s by (simp_all add: entry isString_def)
    then show ?thesis by blast
  qed
qed

lemma render_succeeds:
  assumes "list_all (\<lambda>e. isString (snd e)) result"
  shows "\<exists>s. render tgt result = Inr s"
proof -
  have "\<exists>y. renderPair e = Inr y" if "isString (snd e)" for e
    using that by (cases e; cases "snd e") (auto simp: renderPair_def isString_def)
  with assms have "list_all (\<lambda>x. \<exists>y. x = Inr y) (map renderPair result)"
    by (simp add: list_all_iff)
  then obtain parts where "collect (map renderPair result) = Inr parts"
    using collect_all_Inr by blast
  then show ?thesis by (simp add: render_def)
qed

lemma typed_lookup:
  assumes "SelectorProperties ps"
  shows "getProp ps k = Undefined \<or> hasPropertyType k (getProp ps k)"
proof (cases "map_of ps k")
  case None
  then show ?thesis by (simp add: getProp_def)
next
  case (Some v)
  then have "(k, v) \<in> set ps" by (rule map_of_SomeD)
  with assms have "v = Undefined \<or> hasPropertyType k v"
    by (auto simp: SelectorProperties_def list_all_iff)
  with Some show ?thesis by (simp add: getProp_def)
qed

lemma strings_pushed:
  assumes "isStringOrStrings v"
  shows "list_all (\<lambda>e. isString (snd e)) (map (\<lambda>t. (key, t)) (case v of Arr xs \<Rightarrow> xs | _ \<Rightarrow> [v]))"
  using assms by (cases v) (auto simp: isStringOrStrings_def isString_def list_all_iff)

lemma modifiers_typed:
  assumes "SelectorProperties ps"
  shows "\<forall>(name, modifier) \<in> set modifiers.
           getProp ps name = Undefined \<or>
           (\<exists>pushed. modifier (getProp ps name) = Inr pushed \<and> list_all (\<lambda>e. isString (snd e)) pushed)"
proof -
  have score: "getProp ps ''score'' = Undefined \<or> (\<exists>s. parseScore (getProp ps ''score'') = Inr s)"
    using typed_lookup [OF assms, of "''score''"] parseScore_typed
    by (auto simp: hasPropertyType_def)
  have adv: "getProp ps ''advancements'' = Undefined
               \<or> (\<exists>s. parseAdvancements (getProp ps ''advancements'') = Inr s)"
    using typed_lookup [OF assms, of "''advancements''"] parseAdvancements_typed
    by (auto simp: hasPropertyType_def)
  have tag: "getProp ps ''tag'' = Undefined \<or> isStringOrStrings (getProp ps ''tag'')"
    using typed_lookup [OF assms, of "''tag''"] by (auto simp: hasPropertyType_def)
  have pred: "getProp ps ''predicate'' = Undefined \<or> isStringOrStrings (getProp ps ''predicate'')"
    using typed_lookup [OF assms, of "''predicate''"] by (auto simp: hasPropertyType_def)
  have team: "getProp ps ''team'' = Undefined \<or> isString (getProp ps ''team'')
                \<or> isBoolean (getProp ps ''team'')"
    using typed_lookup [OF assms, of "''team''"] by (auto simp: hasPropertyType_def)
  have team': "isString (if v = Bool True then Str ''!'' else if v = Bool False then Str [] else v)"
    if "isString v \<or> isBoolean v" for v
    using that by (cases v) (auto simp: isString_def isBoolean_def)
  let ?Q = "\<lambda>e. getProp ps (fst e) = Undefined \<or>
                (\<exists>pushed. snd e (getProp ps (fst e)) = Inr pushed
                   \<and> list_all (\<lambda>e. isString (snd e)) pushed)"
  have "list_all ?Q modifiers"
    unfolding modifiers_def list.pred_inject
    apply (intro conjI TrueI)
    subgoal using score by (auto simp: isString_def)
    subgoal using adv by (auto simp: isString_def)
    subgoal using tag strings_pushed [of "getProp ps ''tag''" "''tag''"] by (auto simp: Let_def)
    subgoal using pred strings_pushed [of "getProp ps ''predicate''" "''predicate''"]
      by (auto simp: Let_def)
    subgoal using team team' [of "getProp ps ''team''"] by (auto simp: Let_def)
    subgoal by simp
    done
  then show ?thesis by (auto simp: list_all_iff)
qed

lemma modifiers_distinct: "distinct (map fst modifiers)"
  by (simp add: modifiers_def)

lemma modifiers_names:
  "fst ` set modifiers = {''score'', ''advancements'', ''tag'', ''predicate'', ''team''}"
  by (auto simp: modifiers_def)

lemma toStringMethod_typed:
  assumes "isRange v \<or> isStringOrStrings v \<or> isString v \<or> isNumber v"
  shows "\<exists>s. toStringMethod v = Inr s"
proof (cases v)
  case (Arr xs)
  with assms have "list_all (\<lambda>x. isNumber x \<or> isString x \<or> x = Null) xs"
    by (auto simp: isRange_def isStringOrStrings_def isString_def isNumber_def list_all_iff)
  then obtain s where "ToString (Arr xs) = Inr s" using ToString_simple_array by blast
  then show ?thesis by (simp add: Arr toStringMethod_def)
qed (use assms in \<open>auto simp: toStringMethod_def isRange_def isStringOrStrings_def isString_def isNumber_def\<close>)

lemma toString_typed:
  assumes "arguments this < length h" and "SelectorProperties (h ! arguments this)"
  shows "\<exists>result h' s. collectPairs this h = (Inr result, h') \<and> render (target this) result = Inr s"
proof -
  let ?ps = "h ! arguments this"
  let ?a = "length h"
  let ?h1 = "h @ [?ps]"
  have a: "?a < length ?h1" by simp
  have typed: "\<forall>(name, modifier) \<in> set modifiers.
                 getProp (?h1 ! ?a) name = Undefined \<or>
                 (\<exists>pushed. modifier (getProp (?h1 ! ?a) name) = Inr pushed
                    \<and> list_all (\<lambda>e. isString (snd e)) pushed)"
    using modifiers_typed [OF assms(2)] by simp
  from runModifiers_succeeds [OF a modifiers_distinct typed, of "[]"]
  obtain r h2 where run: "runModifiers modifiers ?a [] ?h1 = (Inr r, h2)"
    and r: "list_all (\<lambda>e. isString (snd e)) r"
    and sub: "set (h2 ! ?a) \<subseteq> set ?ps"
    and dist: "distinct (map fst (h2 ! ?a))"
    and gone: "\<forall>name \<in> fst ` set modifiers. getProp (h2 ! ?a) name = Undefined"
    using assms(2) by (auto simp: SelectorProperties_def)
  have "v = Undefined \<or> (\<exists>s. toStringMethod v = Inr s)" if kv: "(k, v) \<in> set (h2 ! ?a)" for k v
  proof (cases "v = Undefined")
    case False
    from dist kv have "map_of (h2 ! ?a) k = Some v" by (rule map_of_is_SomeI)
    then have "getProp (h2 ! ?a) k = v" by (simp add: getProp_def)
    with False gone have "k \<notin> fst ` set modifiers" by auto
    then have k: "k \<noteq> ''score''" "k \<noteq> ''advancements''" "k \<noteq> ''tag''" "k \<noteq> ''predicate''" "k \<noteq> ''team''"
      by (auto simp: modifiers_names)
    from kv sub have "(k, v) \<in> set ?ps" by blast
    with assms(2) False have "hasPropertyType k v"
      by (auto simp: SelectorProperties_def list_all_iff)
    with k have "isRange v \<or> isStringOrStrings v \<or> isString v \<or> isNumber v"
      by (auto simp: hasPropertyType_def split: if_splits)
    then show ?thesis using toStringMethod_typed by blast
  qed simp
  then have "\<forall>(k, v) \<in> set (h2 ! ?a). v = Undefined \<or> (\<exists>s. toStringMethod v = Inr s)"
    by blast
  from pushRemaining_succeeds [OF this, of r]
  obtain rest where rem: "pushRemaining (h2 ! ?a) r = Inr (r @ rest)"
    and rest: "list_all (\<lambda>e. isString (snd e)) rest" by blast
  have "collectPairs this h = (Inr (r @ rest), h2)"
    using run rem by (simp add: collectPairs_def Let_def)
  moreover from r rest obtain s where "render (target this) (r @ rest) = Inr s"
    using render_succeeds [of "r @ rest" "target this"] by auto
  ultimately show ?thesis by blast
qed

lemma toString_returns:
  assumes "arguments this < length h" and "SelectorProperties (h ! arguments this)"
  shows "\<exists>s. fst (toString this h) = Inr s"
proof (cases "h ! arguments this = []")
  case True
  then show ?thesis by (simp add: toString_def)
next
  case False
  from toString_typed [OF assms] obtain result h' s
    where "collectPairs this h = (Inr result, h')" and "render (target this) result = Inr s"
    by blast
  with False show ?thesis by (simp add: toString_def)
qed

subsection \<open>Values that the second loop converts with \<open>toString()\<close>\<close>

text \<open>Claim C1: a two-element range under a key of the second loop, such as \<open>distance\<close>,
  should render as \<open>min..max\<close>, and \<open>{distance: [2, null]}\<close> as \<open>@e[distance=2..]\<close>. The
  code converts the array with \<open>toString()\<close> (line 252), which joins the elements with a
  comma and renders \<open>null\<close> as the empty string; only \<open>parseScore\<close> writes the two dots.\<close>

theorem toString_distance_range:
  "fst (toString \<lparr> commandsRoot = CommandsRoot, target = ''@e'', arguments = 0 \<rparr>
         [[(''distance'', Arr [Num 2, Null])]]) = Inr ''@e[distance=2,]''"
  by (simp add: selector_defs natToString.simps)

text \<open>Claim C2: an array under \<open>type\<close> should give one \<open>type=value\<close> pair per element,
  as the comment of the property says (lines 101-106) and as \<open>tag\<close> and \<open>predicate\<close> do.
  The code has no modifier for \<open>type\<close>, so the array reaches line 252 and becomes one
  pair with the elements joined by a comma.\<close>

theorem toString_type_array:
  "fst (toString \<lparr> commandsRoot = CommandsRoot, target = ''@e'', arguments = 0 \<rparr>
         [[(''type'', Arr [Str ''!minecraft:cow'', Str ''!minecraft:skeleton''])]])
     = Inr ''@e[type=!minecraft:cow,!minecraft:skeleton]''"
  by (simp add: selector_defs)

subsection \<open>Construction\<close>

text \<open>Claim C3, as the specification states it, fails: a selector built with the
  single-result tag and a limit of 5, or with no arguments at all, is constructed and
  serialized like any other.\<close>

theorem Selector_limit_counterexample:
  "Selector True False CommandsRoot ''@e'' (Some 0) [[(''limit'', Num 5)]]
     = (\<lparr> commandsRoot = CommandsRoot, target = ''@e'', arguments = 0 \<rparr>, [[(''limit'', Num 5)]]) \<and>
   fst (toString \<lparr> commandsRoot = CommandsRoot, target = ''@e'', arguments = 0 \<rparr> [[(''limit'', Num 5)]])
     = Inr ''@e[limit=5]'' \<and>
   Selector True False CommandsRoot ''@e'' None []
     = (\<lparr> commandsRoot = CommandsRoot, target = ''@e'', arguments = 0 \<rparr>, [[]]) \<and>
   fst (toString \<lparr> commandsRoot = CommandsRoot, target = ''@e'', arguments = 0 \<rparr> [[]]) = Inr ''@e''"
  by (simp add: Selector_def SelectorClass_def selector_defs natToString.simps)

text \<open>Claim C3, amended: the limit requirement of a single-result selector is carried by
  the static type of the arguments alone. At run time construction checks nothing and
  never fails: for all tags, targets and arguments it returns what it returns without
  the tags, an object with the given target and the given argument reference (a new
  empty object when there is none). Serialization does not fail for a missing limit
  either: a selector built without arguments gives its target, and a selector built on
  any argument object of the declared type, with or without a limit, gives a string.\<close>

theorem Selector_unchecked:
  "Selector T U root tgt selectorArguments h = Selector False False root tgt selectorArguments h \<and>
   Selector T U root tgt (Some a) h = (\<lparr> commandsRoot = root, target = tgt, arguments = a \<rparr>, h) \<and>
   Selector T U root tgt None h = (\<lparr> commandsRoot = root, target = tgt, arguments = length h \<rparr>, h @ [[]]) \<and>
   toString (fst (Selector T U root tgt None h)) (snd (Selector T U root tgt None h))
     = (Inr tgt, h @ [[]]) \<and>
   (a < length h \<and> SelectorProperties (h ! a) \<longrightarrow>
      (\<exists>s. fst (toString (fst (Selector T U root tgt (Some a) h))
                          (snd (Selector T U root tgt (Some a) h))) = Inr s))"
proof -
  have "\<exists>s. fst (toString \<lparr> commandsRoot = root, target = tgt, arguments = a \<rparr> h) = Inr s"
    if "a < length h" and "SelectorProperties (h ! a)"
    using that toString_returns [of "\<lparr> commandsRoot = root, target = tgt, arguments = a \<rparr>" h]
    by simp
  then show ?thesis
    by (simp add: Selector_def SelectorClass_def toString_def)
qed

theorem Selector_unchecked_witness:
  "SelectorProperties [(''tag'', Str ''a'')] \<and>
   fst (toString (fst (Selector True False CommandsRoot ''@e'' (Some 0) [[(''tag'', Str ''a'')]]))
                 (snd (Selector True False CommandsRoot ''@e'' (Some 0) [[(''tag'', Str ''a'')]])))
     = Inr ''@e[tag=a]''"
proof -
  have typed: "SelectorProperties [(''tag'', Str ''a'')]"
    by (simp add: SelectorProperties_def hasPropertyType_def isStringOrStrings_def)
  have run: "fst (toString \<lparr> commandsRoot = CommandsRoot, target = ''@e'', arguments = 0 \<rparr>
                    [[(''tag'', Str ''a'')]]) = Inr ''@e[tag=a]''"
    by (simp add: selector_defs Let_def)
  from Selector_unchecked [of True False CommandsRoot "''@e''" "Some 0" "[[(''tag'', Str ''a'')]]" 0]
  show ?thesis
    by (simp add: typed run Selector_def SelectorClass_def)
qed

subsection \<open>Serialization\<close>

text \<open>Claim C8: \<open>toString\<close> is a function of the target and the argument mapping, and it
  changes no object that exists when it is called. Every object of the store, the
  selector's own arguments among them, is the same afterwards (the keys are deleted from
  a copy, a new object); a second call returns the same result as the first; and two
  selectors with the same target and equal argument mappings, in any two stores, return
  the same result.\<close>

theorem toString_pure:
  assumes "arguments this < length h"
  shows "take (length h) (snd (toString this h)) = h \<and>
         snd (toString this h) ! arguments this = h ! arguments this \<and>
         fst (toString this (snd (toString this h))) = fst (toString this h) \<and>
         (\<forall>that g. arguments that < length g \<and> target that = target this \<and>
                    g ! arguments that = h ! arguments this
                    \<longrightarrow> fst (toString that g) = fst (toString this h))"
proof -
  let ?h' = "snd (toString this h)"
  from toString_store [OF assms]
  have store: "take (length h) ?h' = h \<and> ?h' ! arguments this = h ! arguments this
                 \<and> arguments this < length ?h'"
    using assms by (auto simp: nth_append)
  then have "fst (toString this ?h') = fst (toString this h)"
    using toString_local [of this ?h'] toString_local [OF assms] by simp
  moreover have "fst (toString that g) = fst (toString this h)"
    if "arguments that < length g" and "target that = target this"
      and "g ! arguments that = h ! arguments this" for that g
    using that toString_local [of that g] toString_local [OF assms] by simp
  ultimately show ?thesis using store by blast
qed

theorem toString_pure_witness:
  "toString \<lparr> commandsRoot = CommandsRoot, target = ''@e'', arguments = 0 \<rparr>
       [[(''limit'', Num 1), (''tag'', Arr [Str ''a'', Str ''b''])]]
     = (Inr ''@e[tag=a, tag=b, limit=1]'',
        [[(''limit'', Num 1), (''tag'', Arr [Str ''a'', Str ''b''])], [(''limit'', Num 1)]]) \<and>
   fst (toString \<lparr> commandsRoot = CommandsRoot, target = ''@e'', arguments = 0 \<rparr>
          [[(''limit'', Num 1), (''tag'', Arr [Str ''a'', Str ''b''])], [(''limit'', Num 1)]])
     = Inr ''@e[tag=a, tag=b, limit=1]''"
proof -
  let ?sel = "\<lparr> commandsRoot = CommandsRoot, target = ''@e'', arguments = 0 \<rparr>"
  let ?h = "[[(''limit'', Num 1), (''tag'', Arr [Str ''a'', Str ''b''])]]"
  have run: "toString ?sel ?h
               = (Inr ''@e[tag=a, tag=b, limit=1]'',
                  [[(''limit'', Num 1), (''tag'', Arr [Str ''a'', Str ''b''])], [(''limit'', Num 1)]])"
    by (simp add: selector_defs natToString.simps)
  from toString_pure [of ?sel ?h] show ?thesis
    by (simp add: run)
qed

text \<open>The entries for \<open>tag\<close>, on any argument object on which the two loops return.\<close>

lemma tag_entries:
  assumes "arguments this < length h"
    and "distinct (map fst (h ! arguments this))"
    and "collectPairs this h = (Inr result, h')"
  shows "(getProp (h ! arguments this) ''tag'' = Arr (map Str ts) \<longrightarrow>
            (\<exists>pre post.
               result = pre @ map (\<lambda>t. (''tag'', Str t)) ts @ post \<and>
               ''tag'' \<notin> fst ` set pre \<and> ''tag'' \<notin> fst ` set post \<and>
               fst (toString this h) = render (target this) result \<and>
               (\<forall>s. fst (toString this h) = Inr s \<longrightarrow>
                  (\<exists>A B. s = target this @ ''['' @ join '', '' (A @ map (\<lambda>t. ''tag='' @ t) ts @ B) @ '']''
                     \<and> length A = length pre \<and> length B = length post)))) \<and>
         (getProp (h ! arguments this) ''tag'' = Undefined \<longrightarrow> ''tag'' \<notin> fst ` set result)"
proof -
  let ?ps = "h ! arguments this"
  let ?a = "length h"
  let ?h1 = "h @ [?ps]"
  let ?ms1 = "take 2 modifiers"
  let ?ms2 = "drop 3 modifiers"
  let ?tagM = "\<lambda>tag. Inr (map (\<lambda>t. (''tag'', t)) (case tag of Arr xs \<Rightarrow> xs | _ \<Rightarrow> [tag]))
                 :: JsError + pairs"
  have a: "?a < length ?h1" by simp
  have ps: "?h1 ! ?a = ?ps" by simp
  \<comment> \<open>the two loops, both successful\<close>
  from assms(3) obtain r h2 where run: "runModifiers modifiers ?a [] ?h1 = (Inr r, h2)"
    and rem: "pushRemaining (h2 ! ?a) r = Inr result"
    by (auto simp: collectPairs_def Let_def split: prod.splits sum.splits)
  \<comment> \<open>the modifiers before \<open>tag\<close>\<close>
  from run obtain pre g1 where run1: "runModifiers ?ms1 ?a [] ?h1 = (Inr pre, g1)"
    and run2: "runModifiers ((''tag'', ?tagM) # ?ms2) ?a pre g1 = (Inr r, h2)"
    using modifiers_split runModifiers_append [of ?ms1 "(''tag'', ?tagM) # ?ms2" ?a "[]" ?h1]
    by (auto split: prod.splits sum.splits)
  have own1: "\<forall>(name, modifier) \<in> set ?ms1. \<forall>v ps. modifier v = Inr ps \<longrightarrow> fst ` set ps \<subseteq> {name}"
    using modifiers_own_key set_take_subset [of 2 modifiers] by blast
  have own2: "\<forall>(name, modifier) \<in> set ?ms2. \<forall>v ps. modifier v = Inr ps \<longrightarrow> fst ` set ps \<subseteq> {name}"
    using modifiers_own_key set_drop_subset [of 3 modifiers] by blast
  from runModifiers_pushed [OF a run1 own1]
  have pre: "fst ` set pre \<subseteq> {''score'', ''advancements''}"
    and g1: "length g1 = length ?h1" "set (g1 ! ?a) \<subseteq> set ?ps"
    and tag1: "getProp (g1 ! ?a) ''tag'' = getProp ?ps ''tag''"
    by (auto simp: modifiers_before_tag)
  have a1: "?a < length g1" using g1(1) by simp
  have pre_tag: "''tag'' \<notin> fst ` set pre" using pre by auto
  show ?thesis
  proof (intro conjI impI)
    assume present: "getProp ?ps ''tag'' = Arr (map Str ts)"
    let ?tags = "map (\<lambda>t. (''tag'', Str t)) ts"
    let ?g2 = "g1[?a := deleteProp ''tag'' (g1 ! ?a)]"
    have run3: "runModifiers ?ms2 ?a (pre @ ?tags) ?g2 = (Inr r, h2)"
      using run2 tag1 present by (simp add: comp_def)
    have a2: "?a < length ?g2" using a1 by simp
    from runModifiers_pushed [OF a2 run3 own2]
    obtain pushed2 where r: "r = (pre @ ?tags) @ pushed2"
      and pushed2: "fst ` set pushed2 \<subseteq> {''predicate'', ''team''}"
      and h2: "set (h2 ! ?a) \<subseteq> set (deleteProp ''tag'' (g1 ! ?a))"
      using a1 by (auto simp: modifiers_after_tag)
    from pushRemaining_pushed [OF rem] obtain rest where result: "result = r @ rest"
      and rest: "\<forall>k v. (k, v) \<in> set rest \<longrightarrow> (\<exists>w. (k, w) \<in> set (h2 ! ?a) \<and> w \<noteq> Undefined)"
      by blast
    have "''tag'' \<notin> fst ` set rest"
    proof
      assume "''tag'' \<in> fst ` set rest"
      then obtain v where "(''tag'', v) \<in> set rest" by auto
      with rest obtain w where "(''tag'', w) \<in> set (h2 ! ?a)" by blast
      with h2 have "''tag'' \<in> fst ` set (deleteProp ''tag'' (g1 ! ?a))" by force
      then show False using key_deleteProp [of "''tag''" "g1 ! ?a"] by simp
    qed
    moreover have "''tag'' \<notin> fst ` set pushed2" using pushed2 by auto
    ultimately have post_tag: "''tag'' \<notin> fst ` set (pushed2 @ rest)" by auto
    have shape: "result = pre @ ?tags @ (pushed2 @ rest)" using r result by simp
    have "?ps \<noteq> []" using present by (auto simp: getProp_def)
    then have str: "fst (toString this h) = render (target this) result"
      using assms(3) by (simp add: toString_def)
    have "\<exists>A B. s = target this @ ''['' @ join '', '' (A @ map (\<lambda>t. ''tag='' @ t) ts @ B) @ '']''
             \<and> length A = length pre \<and> length B = length (pushed2 @ rest)"
      if "fst (toString this h) = Inr s" for s
      using that str shape render_tags [of "target this" pre ts "pushed2 @ rest" s] by simp
    with shape pre_tag post_tag str
    show "\<exists>pre post.
            result = pre @ ?tags @ post \<and>
            ''tag'' \<notin> fst ` set pre \<and> ''tag'' \<notin> fst ` set post \<and>
            fst (toString this h) = render (target this) result \<and>
            (\<forall>s. fst (toString this h) = Inr s \<longrightarrow>
               (\<exists>A B. s = target this @ ''['' @ join '', '' (A @ map (\<lambda>t. ''tag='' @ t) ts @ B) @ '']''
                  \<and> length A = length pre \<and> length B = length post))"
      by blast
  next
    assume absent: "getProp ?ps ''tag'' = Undefined"
    have run3: "runModifiers ?ms2 ?a pre g1 = (Inr r, h2)"
      using run2 tag1 absent by simp
    from runModifiers_pushed [OF a1 run3 own2]
    obtain pushed2 where r: "r = pre @ pushed2"
      and pushed2: "fst ` set pushed2 \<subseteq> {''predicate'', ''team''}"
      and h2: "set (h2 ! ?a) \<subseteq> set (g1 ! ?a)"
      by (auto simp: modifiers_after_tag)
    from pushRemaining_pushed [OF rem] obtain rest where result: "result = r @ rest"
      and rest: "\<forall>k v. (k, v) \<in> set rest \<longrightarrow> (\<exists>w. (k, w) \<in> set (h2 ! ?a) \<and> w \<noteq> Undefined)"
      by blast
    have "''tag'' \<notin> fst ` set rest"
    proof
      assume "''tag'' \<in> fst ` set rest"
      then obtain v where "(''tag'', v) \<in> set rest" by auto
      with rest obtain w where w: "(''tag'', w) \<in> set (h2 ! ?a)" "w \<noteq> Undefined" by blast
      with h2 g1(2) have "(''tag'', w) \<in> set ?ps" by blast
      with assms(2) have "map_of ?ps ''tag'' = Some w" by (rule map_of_is_SomeI)
      then have "getProp ?ps ''tag'' = w" by (simp add: getProp_def)
      with absent w(2) show False by simp
    qed
    moreover have "''tag'' \<notin> fst ` set pushed2" using pushed2 by auto
    ultimately show "''tag'' \<notin> fst ` set result"
      using pre_tag r result by auto
  qed
qed

text \<open>Claim C9: when the \<open>tag\<close> argument is a list of strings, the entries that
  \<open>toString\<close> collects contain one \<open>tag\<close> entry per element, next to each other and in the
  order of the list, and no other \<open>tag\<close> entry; the string returned has \<open>tag=value\<close> for
  each of them at that place. When the \<open>tag\<close> argument is absent or undefined, no \<open>tag\<close>
  entry is collected. This holds whenever \<open>toString\<close> collects its entries without
  throwing, which it does on every argument object of the declared type. The arguments
  \<open>{tag: ["a", "b"]}\<close> give \<open>@e[tag=a, tag=b]\<close>.\<close>

theorem toString_tag_list:
  assumes "arguments this < length h"
    and "distinct (map fst (h ! arguments this))"
  shows "(SelectorProperties (h ! arguments this) \<longrightarrow>
            (\<exists>result h' s. collectPairs this h = (Inr result, h') \<and>
                            render (target this) result = Inr s)) \<and>
         (\<forall>result h'. collectPairs this h = (Inr result, h') \<longrightarrow>
            (getProp (h ! arguments this) ''tag'' = Arr (map Str ts) \<longrightarrow>
               (\<exists>pre post.
                  result = pre @ map (\<lambda>t. (''tag'', Str t)) ts @ post \<and>
                  ''tag'' \<notin> fst ` set pre \<and> ''tag'' \<notin> fst ` set post \<and>
                  fst (toString this h) = render (target this) result \<and>
                  (\<forall>s. fst (toString this h) = Inr s \<longrightarrow>
                     (\<exists>A B. s = target this @ ''['' @ join '', '' (A @ map (\<lambda>t. ''tag='' @ t) ts @ B) @ '']''
                        \<and> length A = length pre \<and> length B = length post)))) \<and>
            (getProp (h ! arguments this) ''tag'' = Undefined \<longrightarrow> ''tag'' \<notin> fst ` set result))"
  using toString_typed [OF assms(1)] tag_entries [OF assms]
  by blast

theorem toString_tag_list_witness:
  "collectPairs \<lparr> commandsRoot = CommandsRoot, target = ''@e'', arguments = 0 \<rparr>
       [[(''tag'', Arr [Str ''a'', Str ''b''])]]
     = (Inr [(''tag'', Str ''a''), (''tag'', Str ''b'')], [[(''tag'', Arr [Str ''a'', Str ''b''])], []]) \<and>
   fst (toString \<lparr> commandsRoot = CommandsRoot, target = ''@e'', arguments = 0 \<rparr>
          [[(''tag'', Arr [Str ''a'', Str ''b''])]]) = Inr ''@e[tag=a, tag=b]'' \<and>
   fst (toString \<lparr> commandsRoot = CommandsRoot, target = ''@e'', arguments = 0 \<rparr>
          [[(''tag'', Undefined), (''limit'', Num 1)]]) = Inr ''@e[limit=1]''"
proof -
  let ?sel = "\<lparr> commandsRoot = CommandsRoot, target = ''@e'', arguments = 0 \<rparr>"
  let ?h = "[[(''tag'', Arr [Str ''a'', Str ''b''])]]"
  have run: "collectPairs ?sel ?h
               = (Inr [(''tag'', Str ''a''), (''tag'', Str ''b'')], [[(''tag'', Arr [Str ''a'', Str ''b''])], []])"
    by (simp add: selector_defs)
  from toString_tag_list [of ?sel ?h "[''a'', ''b'']"]
  show ?thesis
    by (simp add: run selector_defs natToString.simps)
qed

text \<open>Claim C10: when the argument object has at least one key and every value is
  \<open>undefined\<close>, \<open>toString\<close> returns the target followed by \<open>[]\<close>: the test of line 195
  counts keys, and both loops skip undefined values.\<close>

theorem toString_undefined_values:
  assumes "arguments this < length h"
    and "h ! arguments this \<noteq> []"
    and "\<forall>v \<in> snd ` set (h ! arguments this). v = Undefined"
  shows "fst (toString this h) = Inr (target this @ ''[]'')"
proof -
  let ?h1 = "h @ [h ! arguments this]"
  have "\<forall>name. getProp (?h1 ! length h) name = Undefined"
    using assms(3) by (simp add: getProp_undefined)
  then have "runModifiers modifiers (length h) [] ?h1 = (Inr [], ?h1)"
    by (rule runModifiers_skip)
  moreover have "pushRemaining (?h1 ! length h) [] = Inr []"
    using assms(3) by (simp add: pushRemaining_skip)
  ultimately have "collectPairs this h = (Inr [], ?h1)"
    by (simp add: collectPairs_def Let_def)
  with assms(2) show ?thesis
    by (simp add: toString_def render_def)
qed

theorem toString_undefined_values_witness:
  "fst (toString \<lparr> commandsRoot = CommandsRoot, target = ''@e'', arguments = 0 \<rparr>
         [[(''tag'', Undefined), (''limit'', Undefined)]]) = Inr ''@e[]''"
  using toString_undefined_values
    [of "\<lparr> commandsRoot = CommandsRoot, target = ''@e'', arguments = 0 \<rparr>"
        "[[(''tag'', Undefined), (''limit'', Undefined)]]"]
  by simp

end
